theory Spec2Isabelle
  imports Main
begin

section \<open>The participant (server) of the three-phase commit store\<close>

text \<open>
  This theory embeds the participant of \<^verbatim>\<open>server.go\<close> together with the shared
  declarations of the package (transaction states, operations, RPC argument and reply
  structs). Every handler takes the server state and returns the new one. The
  participant-wide mutex \<^verbatim>\<open>sv.mu\<close> only serialises accesses to the maps, so one
  call of a handler is modelled as running alone. The per-key readers-writer locks are
  part of the state, since what a handler does depends on who holds them.
\<close>

subsection \<open>Shared declarations\<close>

text \<open>The constants \<^verbatim>\<open>stateOperations ... stateCommitted\<close>, in the order of the \<^verbatim>\<open>iota\<close> block.
  The zero value of the type is \<^verbatim>\<open>stateOperations\<close>.\<close>

datatype TransactionState =
    stateOperations
  | stateVotedNo
  | stateVotedYes
  | statePreCommitted
  | stateAborted
  | stateCommitted

text \<open>A value of type \<^verbatim>\<open>interface{}\<close> is \<open>None\<close> when it is \<^verbatim>\<open>nil\<close>; the values
  themselves are opaque (\<open>'v\<close>).\<close>

record RPCArgs =
  Tid :: int

record PrepareReply =
  Relevant :: bool
  Vote :: bool

record 'v Operation =
  IsGet :: bool
  Key :: string
  Value :: "'v option"

record 'v ServerTransaction =
  State :: TransactionState
  Operations :: "'v Operation list"

record 'v QueryReply =
  Transactions :: "int \<rightharpoonup> 'v ServerTransaction"

record 'v CommitReply =
  ReadValues :: "string \<rightharpoonup> 'v option"

subsection \<open>Readers-writer locks\<close>

text \<open>
  \<^verbatim>\<open>sync.RWMutex\<close> belongs to Go's standard library. Its documented contract is modelled:
  any number of readers or one writer hold the lock; \<^verbatim>\<open>RLock\<close> waits while a writer
  holds it, \<^verbatim>\<open>Lock\<close> waits while anyone holds it; it is a fatal run-time error to call
  \<^verbatim>\<open>RUnlock\<close> on a lock that is not held for reading, or \<^verbatim>\<open>Unlock\<close> on a lock that is
  not held for writing. An acquisition that would have to wait is \<open>None\<close>; a release
  that is a run-time error is \<open>Inl\<close> of the error.
\<close>

record RWMutex =
  readers :: nat
  writer :: bool

datatype fatal_error = RUnlockOfUnlockedRWMutex | UnlockOfUnlockedRWMutex

definition unlocked :: RWMutex where
  "unlocked = \<lparr>readers = 0, writer = False\<rparr>"

definition RLock :: "RWMutex \<Rightarrow> RWMutex option" where
  "RLock m = (if writer m then None else Some (m\<lparr>readers := readers m + 1\<rparr>))"

definition Lock :: "RWMutex \<Rightarrow> RWMutex option" where
  "Lock m = (if writer m \<or> readers m > 0 then None else Some (m\<lparr>writer := True\<rparr>))"

definition RUnlock :: "RWMutex \<Rightarrow> fatal_error + RWMutex" where
  "RUnlock m = (if readers m = 0 then Inl RUnlockOfUnlockedRWMutex
                else Inr (m\<lparr>readers := readers m - 1\<rparr>))"

definition Unlock :: "RWMutex \<Rightarrow> fatal_error + RWMutex" where
  "Unlock m = (if writer m then Inr (m\<lparr>writer := False\<rparr>) else Inl UnlockOfUnlockedRWMutex)"

subsection \<open>The server state\<close>

text \<open>The field \<^verbatim>\<open>value\<close> of \<^verbatim>\<open>StoreItem\<close> is named \<open>value_field\<close> here. The map
  \<^verbatim>\<open>store\<close> holds one item per key and is never changed after \<^verbatim>\<open>MakeServer\<close>, so a
  pointer to an item is modelled by its key.\<close>

record 'v StoreItem =
  value_field :: "'v option"
  lock :: RWMutex

type_synonym 'v Store = "string \<rightharpoonup> 'v StoreItem"

record 'v Server =
  store :: "'v Store"
  operations :: "int \<rightharpoonup> 'v Operation list"
  states :: "int \<rightharpoonup> TransactionState"

text \<open>Reading a Go map at a missing key gives the zero value: \<^verbatim>\<open>sv.states[tid]\<close> is
  \<^verbatim>\<open>stateOperations\<close> and \<^verbatim>\<open>sv.operations[tid]\<close> is the nil slice.\<close>

definition state_of :: "'v Server \<Rightarrow> int \<Rightarrow> TransactionState" where
  "state_of sv tid = (case states sv tid of None \<Rightarrow> stateOperations | Some s \<Rightarrow> s)"

definition ops_of :: "'v Server \<Rightarrow> int \<Rightarrow> 'v Operation list" where
  "ops_of sv tid = (case operations sv tid of None \<Rightarrow> [] | Some ops \<Rightarrow> ops)"

text \<open>What a call of a handler comes to: it returns with the new state and its reply, it
  is parked on a lock that is held (with the state at that moment), or the process dies
  with a fatal run-time error.\<close>

datatype ('s, 'r) outcome = Returned 's 'r | Blocked 's | Fatal fatal_error

subsection \<open>MakeServer, Get and Set\<close>

definition MakeServer :: "string list \<Rightarrow> 'v Server" where
  "MakeServer keys =
     \<lparr>store = fold (\<lambda>key st. st(key \<mapsto> \<lparr>value_field = None, lock = unlocked\<rparr>)) keys Map.empty,
      operations = Map.empty,
      states = Map.empty\<rparr>"

definition Get :: "'v Server \<Rightarrow> int \<Rightarrow> string \<Rightarrow> 'v Server" where
  "Get sv tid key =
     sv\<lparr>operations := (operations sv)(tid \<mapsto>
           ops_of sv tid @ [\<lparr>IsGet = True, Key = key, Value = None\<rparr>])\<rparr>"

definition Set :: "'v Server \<Rightarrow> int \<Rightarrow> string \<Rightarrow> 'v option \<Rightarrow> 'v Server" where
  "Set sv tid key v =
     sv\<lparr>operations := (operations sv)(tid \<mapsto>
           ops_of sv tid @ [\<lparr>IsGet = False, Key = key, Value = v\<rparr>])\<rparr>"

subsection \<open>Prepare\<close>

text \<open>The inner loop of the failure path: every item obtained so far is released with
  \<^verbatim>\<open>lock.lock.Unlock()\<close>, the write unlock, whatever way it was locked. The test
  \<^verbatim>\<open>lock != nil\<close> is the lookup of the key; it succeeds for every obtained item.\<close>

fun unlock_obtained :: "string list \<Rightarrow> 'v Store \<Rightarrow> fatal_error + 'v Store" where
  "unlock_obtained [] st = Inr st"
| "unlock_obtained (k # ks) st =
     (case st k of
        None \<Rightarrow> unlock_obtained ks st
      | Some item \<Rightarrow>
          (case Unlock (lock item) of
             Inl e \<Rightarrow> Inl e
           | Inr m \<Rightarrow> unlock_obtained ks (st(k \<mapsto> item\<lparr>lock := m\<rparr>))))"

text \<open>The loop over the operations, with the list \<^verbatim>\<open>locks\<close> of the items obtained so far
  and the reply under construction.\<close>

fun prepare_loop ::
  "int \<Rightarrow> 'v Operation list \<Rightarrow> string list \<Rightarrow> 'v Server \<Rightarrow> PrepareReply
     \<Rightarrow> ('v Server, PrepareReply) outcome" where
  "prepare_loop tId [] locks sv reply =
     Returned (sv\<lparr>states := (states sv)(tId \<mapsto> stateVotedYes)\<rparr>) reply"
| "prepare_loop tId (op # ops) locks sv reply =
     (case store sv (Key op) of
        None \<Rightarrow>
          (case unlock_obtained locks (store sv) of
             Inl e \<Rightarrow> Fatal e
           | Inr st \<Rightarrow>
               Returned (sv\<lparr>store := st, states := (states sv)(tId \<mapsto> stateVotedNo)\<rparr>)
                        (reply\<lparr>Vote := False\<rparr>))
      | Some item \<Rightarrow>
          (case (if IsGet op then RLock (lock item) else Lock (lock item)) of
             None \<Rightarrow> Blocked sv
           | Some m \<Rightarrow>
               prepare_loop tId ops (locks @ [Key op])
                 (sv\<lparr>store := (store sv)(Key op \<mapsto> item\<lparr>lock := m\<rparr>)\<rparr>) reply))"

definition Prepare ::
  "'v Server \<Rightarrow> RPCArgs \<Rightarrow> PrepareReply \<Rightarrow> ('v Server, PrepareReply) outcome" where
  "Prepare sv args reply =
     (let tId = Tid args in
      case operations sv tId of
        None \<Rightarrow> Returned sv (reply\<lparr>Relevant := False\<rparr>)
      | Some ops \<Rightarrow>
          if length ops = 0 then Returned sv (reply\<lparr>Relevant := False\<rparr>)
          else if state_of sv (Tid args) \<noteq> stateOperations then
            (if state_of sv (Tid args) = stateVotedYes
                \<or> state_of sv (Tid args) = statePreCommitted
                \<or> state_of sv (Tid args) = stateCommitted
             then Returned sv (reply\<lparr>Relevant := True, Vote := True\<rparr>)
             else Returned sv (reply\<lparr>Relevant := True, Vote := False\<rparr>))
          else prepare_loop tId ops [] sv (reply\<lparr>Relevant := True, Vote := True\<rparr>))"

subsection \<open>Abort\<close>

fun abort_loop :: "'v Operation list \<Rightarrow> 'v Store \<Rightarrow> fatal_error + 'v Store" where
  "abort_loop [] st = Inr st"
| "abort_loop (op # ops) st =
     (case st (Key op) of
        None \<Rightarrow> abort_loop ops st
      | Some item \<Rightarrow>
          (case (if IsGet op then RUnlock (lock item) else Unlock (lock item)) of
             Inl e \<Rightarrow> Inl e
           | Inr m \<Rightarrow> abort_loop ops (st(Key op \<mapsto> item\<lparr>lock := m\<rparr>))))"

definition Abort :: "'v Server \<Rightarrow> RPCArgs \<Rightarrow> ('v Server, unit) outcome" where
  "Abort sv args =
     (let tId = Tid args in
      if states sv tId = None \<or> state_of sv tId = stateAborted then Returned sv ()
      else
        (case abort_loop (ops_of sv tId) (store sv) of
           Inl e \<Rightarrow> Fatal e
         | Inr st \<Rightarrow>
             Returned (sv\<lparr>store := st, states := (states sv)(tId \<mapsto> stateAborted)\<rparr>) ()))"

subsection \<open>Query\<close>

definition Query :: "'v Server \<Rightarrow> 'v QueryReply" where
  "Query sv =
     \<lparr>Transactions = (\<lambda>tid.
        case states sv tid of
          None \<Rightarrow> None
        | Some state \<Rightarrow> Some \<lparr>State = state, Operations = ops_of sv tid\<rparr>)\<rparr>"

subsection \<open>PreCommit\<close>

definition PreCommit :: "'v Server \<Rightarrow> RPCArgs \<Rightarrow> ('v Server, unit) outcome" where
  "PreCommit sv args =
     (let tid = Tid args in
      if operations sv tid \<noteq> None \<and> state_of sv tid = stateVotedYes
      then Returned (sv\<lparr>states := (states sv)(tid \<mapsto> statePreCommitted)\<rparr>) ()
      else Returned sv ())"

subsection \<open>Commit\<close>

fun commit_loop ::
  "'v Operation list \<Rightarrow> 'v Store \<Rightarrow> (string \<rightharpoonup> 'v option)
     \<Rightarrow> fatal_error + ('v Store \<times> (string \<rightharpoonup> 'v option))" where
  "commit_loop [] st rv = Inr (st, rv)"
| "commit_loop (op # ops) st rv =
     (case st (Key op) of
        None \<Rightarrow> commit_loop ops st rv
      | Some item \<Rightarrow>
          if IsGet op then
            (case RUnlock (lock item) of
               Inl e \<Rightarrow> Inl e
             | Inr m \<Rightarrow>
                 commit_loop ops (st(Key op \<mapsto> item\<lparr>lock := m\<rparr>))
                   (rv(Key op \<mapsto> value_field item)))
          else
            (case Unlock (lock item) of
               Inl e \<Rightarrow> Inl e
             | Inr m \<Rightarrow>
                 commit_loop ops (st(Key op \<mapsto> item\<lparr>value_field := Value op, lock := m\<rparr>)) rv))"

definition Commit :: "'v Server \<Rightarrow> RPCArgs \<Rightarrow> ('v Server, 'v CommitReply) outcome" where
  "Commit sv args =
     (let tid = Tid args in
      case operations sv tid of
        None \<Rightarrow> Returned sv \<lparr>ReadValues = Map.empty\<rparr>
      | Some ops \<Rightarrow>
          if state_of sv tid \<noteq> statePreCommitted then Returned sv \<lparr>ReadValues = Map.empty\<rparr>
          else
            (case commit_loop ops (store sv) Map.empty of
               Inl e \<Rightarrow> Fatal e
             | Inr (st, rv) \<Rightarrow>
                 Returned (sv\<lparr>store := st, states := (states sv)(tid \<mapsto> stateCommitted)\<rparr>)
                          \<lparr>ReadValues = rv\<rparr>))"

subsection \<open>Sequences of calls and reachable states\<close>

text \<open>A call followed by another one on the state the first call returned. A call that
  is parked or that dies ends the sequence.\<close>

definition and_then ::
  "('s, 'r) outcome \<Rightarrow> ('s \<Rightarrow> ('s, 'q) outcome) \<Rightarrow> ('s, 'q) outcome" where
  "and_then c f =
     (case c of Returned s r \<Rightarrow> f s | Blocked s \<Rightarrow> Blocked s | Fatal e \<Rightarrow> Fatal e)"

text \<open>The zero value of \<^verbatim>\<open>PrepareReply\<close>, as the RPC layer allocates it.\<close>

definition reply0 :: PrepareReply where
  "reply0 = \<lparr>Relevant = False, Vote = False\<rparr>"

text \<open>The states of a participant that calls of its handlers, one after the other, lead
  to from a fresh server. A call of \<open>Prepare\<close> that is parked on a lock leaves the
  state it reached behind, with which other handlers go on.\<close>

inductive reachable :: "'v Server \<Rightarrow> bool" where
  reach_MakeServer: "reachable (MakeServer keys)"
| reach_Get: "reachable sv \<Longrightarrow> reachable (Get sv tid key)"
| reach_Set: "reachable sv \<Longrightarrow> reachable (Set sv tid key v)"
| reach_Prepare:
    "reachable sv \<Longrightarrow> Prepare sv args reply = Returned sv' reply' \<Longrightarrow> reachable sv'"
| reach_Prepare_parked:
    "reachable sv \<Longrightarrow> Prepare sv args reply = Blocked sv' \<Longrightarrow> reachable sv'"
| reach_Abort: "reachable sv \<Longrightarrow> Abort sv args = Returned sv' u \<Longrightarrow> reachable sv'"
| reach_PreCommit: "reachable sv \<Longrightarrow> PreCommit sv args = Returned sv' u \<Longrightarrow> reachable sv'"
| reach_Commit: "reachable sv \<Longrightarrow> Commit sv args = Returned sv' creply \<Longrightarrow> reachable sv'"

text \<open>What every reachable state satisfies: a log entry is never empty, a transaction
  with a recorded state has a log entry, and \<^verbatim>\<open>stateOperations\<close> is never recorded (it is
  only ever read as the zero value of a missing entry).\<close>

definition log_consistent :: "'v Server \<Rightarrow> bool" where
  "log_consistent sv \<longleftrightarrow>
     (\<forall>tid. operations sv tid \<noteq> Some [])
     \<and> (\<forall>tid. states sv tid \<noteq> None \<longrightarrow> operations sv tid \<noteq> None)
     \<and> (\<forall>tid. states sv tid \<noteq> Some stateOperations)"

subsection \<open>Executing a log, as the specification words it\<close>

text \<open>
  The specification describes \<open>Commit\<close> as executing the log in order: a Set writes its
  value into the item of its key, a Get reads the value that the item has at that point
  into the reply. \<open>spec_execute\<close> follows these words and does nothing else; it is
  compared with the loop of the handler, which releases the locks in the same pass.
\<close>

fun spec_execute_op ::
  "'v Operation \<Rightarrow> 'v Store \<times> (string \<rightharpoonup> 'v option)
     \<Rightarrow> 'v Store \<times> (string \<rightharpoonup> 'v option)" where
  "spec_execute_op op (st, rv) =
     (case st (Key op) of
        None \<Rightarrow> (st, rv)
      | Some item \<Rightarrow>
          if IsGet op then (st, rv(Key op \<mapsto> value_field item))
          else (st(Key op \<mapsto> item\<lparr>value_field := Value op\<rparr>), rv))"

definition spec_execute ::
  "'v Operation list \<Rightarrow> 'v Store \<Rightarrow> 'v Store \<times> (string \<rightharpoonup> 'v option)" where
  "spec_execute ops st = fold spec_execute_op ops (st, Map.empty)"

subsection \<open>Auxiliary views of the loops\<close>

text \<open>The store part of one successful round of the loop of \<open>Prepare\<close>, and of all of
  them: \<open>None\<close> when a key is missing or a lock would have to be waited for.\<close>

definition acquire_op :: "'v Operation \<Rightarrow> 'v Store \<Rightarrow> 'v Store option" where
  "acquire_op op st =
     (case st (Key op) of
        None \<Rightarrow> None
      | Some item \<Rightarrow>
          (case (if IsGet op then RLock (lock item) else Lock (lock item)) of
             None \<Rightarrow> None
           | Some m \<Rightarrow> Some (st(Key op \<mapsto> item\<lparr>lock := m\<rparr>))))"

fun acquire_locks :: "'v Operation list \<Rightarrow> 'v Store \<Rightarrow> 'v Store option" where
  "acquire_locks [] st = Some st"
| "acquire_locks (op # ops) st =
     (case acquire_op op st of None \<Rightarrow> None | Some st' \<Rightarrow> acquire_locks ops st')"

text \<open>One round of the loop of \<open>Commit\<close>.\<close>

definition commit_step ::
  "'v Operation \<Rightarrow> 'v Store \<times> (string \<rightharpoonup> 'v option)
     \<Rightarrow> fatal_error + ('v Store \<times> (string \<rightharpoonup> 'v option))" where
  "commit_step op s =
     (case fst s (Key op) of
        None \<Rightarrow> Inr s
      | Some item \<Rightarrow>
          if IsGet op then
            (case RUnlock (lock item) of
               Inl e \<Rightarrow> Inl e
             | Inr m \<Rightarrow>
                 Inr ((fst s)(Key op \<mapsto> item\<lparr>lock := m\<rparr>),
                      (snd s)(Key op \<mapsto> value_field item)))
          else
            (case Unlock (lock item) of
               Inl e \<Rightarrow> Inl e
             | Inr m \<Rightarrow>
                 Inr ((fst s)(Key op \<mapsto> item\<lparr>value_field := Value op, lock := m\<rparr>), snd s)))"

subsection \<open>Example states\<close>

text \<open>A server that owns \<open>x\<close>: transaction 0 has set \<open>x\<close> to 1 and is committed,
  transaction 1 has logged a Set of \<open>x\<close>, has voted yes and holds the write lock of \<open>x\<close>.\<close>

definition committed_while_held :: "nat Server" where
  "committed_while_held =
     \<lparr>store = [''x'' \<mapsto> \<lparr>value_field = Some 1, lock = \<lparr>readers = 0, writer = True\<rparr>\<rparr>],
      operations = [0 \<mapsto> [\<lparr>IsGet = False, Key = ''x'', Value = Some 1\<rparr>],
                    1 \<mapsto> [\<lparr>IsGet = False, Key = ''x'', Value = Some 2\<rparr>]],
      states = [0 \<mapsto> stateCommitted, 1 \<mapsto> stateVotedYes]\<rparr>"

text \<open>A server that owns \<open>x\<close>, on which transaction 0 has logged a Get and a Set of
  \<open>x\<close>, has no recorded state, and holds the read lock of \<open>x\<close>.\<close>

definition parked_on_own_lock :: "nat Server" where
  "parked_on_own_lock =
     \<lparr>store = [''x'' \<mapsto> \<lparr>value_field = None, lock = \<lparr>readers = 1, writer = False\<rparr>\<rparr>],
      operations = [0 \<mapsto> [\<lparr>IsGet = True, Key = ''x'', Value = None\<rparr>,
                           \<lparr>IsGet = False, Key = ''x'', Value = Some 1\<rparr>]],
      states = Map.empty\<rparr>"

text \<open>A server that owns \<open>x\<close>, on which transaction 0 has logged a Set of \<open>x\<close> and
  has voted yes; and one on which transaction 0 has logged a Set of a key \<open>q\<close> that the
  server does not own and has voted no.\<close>

definition voted_yes :: "nat Server" where
  "voted_yes =
     \<lparr>store = [''x'' \<mapsto> \<lparr>value_field = None, lock = \<lparr>readers = 0, writer = True\<rparr>\<rparr>],
      operations = [0 \<mapsto> [\<lparr>IsGet = False, Key = ''x'', Value = Some 1\<rparr>]],
      states = [0 \<mapsto> stateVotedYes]\<rparr>"

definition voted_no :: "nat Server" where
  "voted_no =
     \<lparr>store = [''x'' \<mapsto> \<lparr>value_field = None, lock = \<lparr>readers = 0, writer = False\<rparr>\<rparr>],
      operations = [0 \<mapsto> [\<lparr>IsGet = False, Key = ''q'', Value = Some 1\<rparr>]],
      states = [0 \<mapsto> stateVotedNo]\<rparr>"

text \<open>A server that owns \<open>x\<close> (holding 1) and \<open>y\<close> (holding nil), on which transaction
  0 has logged a Get of \<open>x\<close> and a Set of \<open>y\<close> to 5; and its store once \<open>Prepare\<close> has
  taken the read lock of \<open>x\<close> and the write lock of \<open>y\<close>.\<close>

definition read_write_logged :: "nat Server" where
  "read_write_logged =
     \<lparr>store = [''x'' \<mapsto> \<lparr>value_field = Some 1, lock = \<lparr>readers = 0, writer = False\<rparr>\<rparr>,
               ''y'' \<mapsto> \<lparr>value_field = None, lock = \<lparr>readers = 0, writer = False\<rparr>\<rparr>],
      operations = [0 \<mapsto> [\<lparr>IsGet = True, Key = ''x'', Value = None\<rparr>,
                           \<lparr>IsGet = False, Key = ''y'', Value = Some 5\<rparr>]],
      states = Map.empty\<rparr>"

definition read_write_locked :: "nat Store" where
  "read_write_locked =
     [''x'' \<mapsto> \<lparr>value_field = Some 1, lock = \<lparr>readers = 1, writer = False\<rparr>\<rparr>,
      ''y'' \<mapsto> \<lparr>value_field = None, lock = \<lparr>readers = 0, writer = True\<rparr>\<rparr>]"

text \<open>A server that owns \<open>x\<close> and \<open>y\<close>: transaction 0 logged a Set of \<open>x\<close>, voted yes
  (taking the write lock of \<open>x\<close>), then logged a Set of \<open>y\<close>, and is pre-committed.\<close>

definition late_set_precommitted :: "nat Server" where
  "late_set_precommitted =
     \<lparr>store = [''y'' \<mapsto> \<lparr>value_field = None, lock = \<lparr>readers = 0, writer = False\<rparr>\<rparr>,
               ''x'' \<mapsto> \<lparr>value_field = None, lock = \<lparr>readers = 0, writer = True\<rparr>\<rparr>],
      operations = [0 \<mapsto> [\<lparr>IsGet = False, Key = ''x'', Value = Some 1\<rparr>,
                           \<lparr>IsGet = False, Key = ''y'', Value = Some 2\<rparr>]],
      states = [0 \<mapsto> statePreCommitted]\<rparr>"

section \<open>Evaluation of calls on given states\<close>

lemmas handler_defs =
  Prepare_def Abort_def Commit_def PreCommit_def Query_def Let_def state_of_def ops_of_def
  Set_def Get_def MakeServer_def RLock_def Lock_def Unlock_def RUnlock_def unlocked_def
  and_then_def reply0_def

section \<open>Every reachable state is log-consistent\<close>

lemma prepare_loop_Returned_maps:
  "prepare_loop tId ops locks sv r = Returned sv' r' \<Longrightarrow>
     operations sv' = operations sv
     \<and> (states sv' = (states sv)(tId \<mapsto> stateVotedYes)
        \<or> states sv' = (states sv)(tId \<mapsto> stateVotedNo))"
proof (induction ops arbitrary: locks sv)
  case Nil
  then show ?case by auto
next
  case (Cons op ops)
  show ?case
  proof (cases "store sv (Key op)")
    case None
    with Cons.prems show ?thesis by (auto split: sum.splits)
  next
    case (Some item)
    with Cons.prems obtain m where
      "prepare_loop tId ops (locks @ [Key op])
         (sv\<lparr>store := (store sv)(Key op \<mapsto> item\<lparr>lock := m\<rparr>)\<rparr>) r = Returned sv' r'"
      by (auto split: option.splits)
    from Cons.IH [OF this] show ?thesis by simp
  qed
qed

lemma prepare_loop_Blocked_maps:
  "prepare_loop tId ops locks sv r = Blocked sv' \<Longrightarrow>
     operations sv' = operations sv \<and> states sv' = states sv"
  by (induction ops arbitrary: locks sv) (auto split: option.splits sum.splits if_splits)

lemma log_consistent_MakeServer: "log_consistent (MakeServer keys)"
  by (simp add: log_consistent_def MakeServer_def)

lemma log_consistent_Get: "log_consistent sv \<Longrightarrow> log_consistent (Get sv tid key)"
  by (simp add: log_consistent_def Get_def)

lemma log_consistent_Set: "log_consistent sv \<Longrightarrow> log_consistent (Set sv tid key v)"
  by (simp add: log_consistent_def Set_def)

lemma log_consistent_Prepare:
  assumes "log_consistent sv" and "Prepare sv args reply = Returned sv' reply'"
  shows "log_consistent sv'"
proof (cases "operations sv (Tid args)")
  case None
  with assms show ?thesis by (simp add: Prepare_def Let_def)
next
  case (Some ops)
  show ?thesis
  proof (cases "ops = [] \<or> state_of sv (Tid args) \<noteq> stateOperations")
    case True
    with assms Some show ?thesis by (auto simp: Prepare_def Let_def split: if_splits)
  next
    case False
    with assms Some have
      "prepare_loop (Tid args) ops [] sv (reply\<lparr>Relevant := True, Vote := True\<rparr>)
         = Returned sv' reply'"
      by (simp add: Prepare_def Let_def)
    from prepare_loop_Returned_maps [OF this] assms(1) Some False show ?thesis
      by (auto simp: log_consistent_def split: if_splits)
  qed
qed

lemma log_consistent_Prepare_parked:
  assumes "log_consistent sv" and "Prepare sv args reply = Blocked sv'"
  shows "log_consistent sv'"
proof (cases "operations sv (Tid args)")
  case None
  with assms show ?thesis by (simp add: Prepare_def Let_def)
next
  case (Some ops)
  with assms have
    "prepare_loop (Tid args) ops [] sv (reply\<lparr>Relevant := True, Vote := True\<rparr>) = Blocked sv'"
    by (auto simp: Prepare_def Let_def split: if_splits)
  from prepare_loop_Blocked_maps [OF this] assms(1) show ?thesis
    by (simp add: log_consistent_def)
qed

lemma log_consistent_Abort:
  "log_consistent sv \<Longrightarrow> Abort sv args = Returned sv' u \<Longrightarrow> log_consistent sv'"
  by (auto simp: Abort_def Let_def log_consistent_def split: if_splits sum.splits)

lemma log_consistent_PreCommit:
  "log_consistent sv \<Longrightarrow> PreCommit sv args = Returned sv' u \<Longrightarrow> log_consistent sv'"
  by (auto simp: PreCommit_def Let_def log_consistent_def split: if_splits)

lemma log_consistent_Commit:
  "log_consistent sv \<Longrightarrow> Commit sv args = Returned sv' creply \<Longrightarrow> log_consistent sv'"
  by (auto simp: Commit_def Let_def log_consistent_def split: if_splits sum.splits option.splits)

lemma reachable_log_consistent: "reachable sv \<Longrightarrow> log_consistent sv"
proof (induction rule: reachable.induct)
  case (reach_MakeServer keys)
  show ?case by (rule log_consistent_MakeServer)
next
  case (reach_Get sv tid key)
  then show ?case by (simp add: log_consistent_Get)
next
  case (reach_Set sv tid key v)
  then show ?case by (simp add: log_consistent_Set)
next
  case (reach_Prepare sv args reply sv' reply')
  then show ?case by (blast intro: log_consistent_Prepare)
next
  case (reach_Prepare_parked sv args reply sv')
  then show ?case by (blast intro: log_consistent_Prepare_parked)
next
  case (reach_Abort sv args sv' u)
  then show ?case by (blast intro: log_consistent_Abort)
next
  case (reach_PreCommit sv args sv' u)
  then show ?case by (blast intro: log_consistent_PreCommit)
next
  case (reach_Commit sv args sv' creply)
  then show ?case by (blast intro: log_consistent_Commit)
qed

lemma state_of_Operations_iff:
  "log_consistent sv \<Longrightarrow> state_of sv tid = stateOperations \<longleftrightarrow> states sv tid = None"
  by (auto simp: log_consistent_def state_of_def split: option.splits)

lemma recorded_state_has_ops:
  assumes lc: "log_consistent sv" and "state_of sv tid \<noteq> stateOperations"
  shows "\<exists>ops. operations sv tid = Some ops \<and> ops \<noteq> []"
proof -
  from assms(2) have "states sv tid \<noteq> None"
    by (auto simp: state_of_def split: option.splits)
  with lc obtain ops where ops: "operations sv tid = Some ops"
    by (auto simp: log_consistent_def)
  with lc have "ops \<noteq> []" by (auto simp: log_consistent_def)
  with ops show ?thesis by blast
qed

subsection \<open>The example states are reachable\<close>

lemma reachable_logged: "reachable (Set (MakeServer [''x'']) 0 ''x'' (Some (1::nat)))"
  by (intro reach_Set reach_MakeServer)

lemma Prepare_logged:
  "Prepare (Set (MakeServer [''x'']) 0 ''x'' (Some 1)) \<lparr>Tid = 0\<rparr> reply0
     = Returned voted_yes \<lparr>Relevant = True, Vote = True\<rparr>"
  by (simp add: handler_defs voted_yes_def)

lemma reachable_voted_yes: "reachable voted_yes"
  by (rule reach_Prepare [OF reachable_logged Prepare_logged])

lemma Prepare_unowned:
  "Prepare (Set (MakeServer [''x'']) 0 ''q'' (Some 1)) \<lparr>Tid = 0\<rparr> reply0
     = Returned voted_no \<lparr>Relevant = True, Vote = False\<rparr>"
  by (simp add: handler_defs voted_no_def)

lemma reachable_voted_no: "reachable voted_no"
  by (rule reach_Prepare [OF reach_Set [OF reach_MakeServer] Prepare_unowned])

section \<open>Get and Set only append to the log\<close>

text \<open>
  Claim C10. \<open>Set tid key v\<close> appends exactly the one operation
  \<open>{IsGet = false, key, v}\<close> at the end of the log of \<open>tid\<close>, and \<open>Get tid key\<close>
  appends exactly \<open>{IsGet = true, key}\<close> with the nil value. Neither call changes the
  store (values and locks), the transaction states, or the log of another transaction.
\<close>

theorem Get_Set_append_only:
  "ops_of (Set sv tid key v) tid = ops_of sv tid @ [\<lparr>IsGet = False, Key = key, Value = v\<rparr>]
   \<and> ops_of (Get sv tid key) tid = ops_of sv tid @ [\<lparr>IsGet = True, Key = key, Value = None\<rparr>]
   \<and> store (Set sv tid key v) = store sv \<and> states (Set sv tid key v) = states sv
   \<and> store (Get sv tid key) = store sv \<and> states (Get sv tid key) = states sv
   \<and> (\<forall>tid'. tid' \<noteq> tid \<longrightarrow>
        operations (Set sv tid key v) tid' = operations sv tid'
        \<and> operations (Get sv tid key) tid' = operations sv tid')"
  by (simp add: Set_def Get_def ops_of_def)

text \<open>Two Sets and a Get of transaction 0 are logged in the order of the calls, and the
  log of transaction 1 stays as it was.\<close>

theorem Get_Set_append_only_witness:
  "ops_of (Get (Set (Set (MakeServer [''x'']) 1 ''x'' (Some (7::nat))) 0 ''x'' (Some 1)) 0 ''x'') 0
     = [\<lparr>IsGet = False, Key = ''x'', Value = Some 1\<rparr>, \<lparr>IsGet = True, Key = ''x'', Value = None\<rparr>]
   \<and> (1::int) \<noteq> 0
   \<and> operations (Get (Set (Set (MakeServer [''x'']) 1 ''x'' (Some (7::nat))) 0 ''x'' (Some 1)) 0 ''x'') 1
     = operations (Set (MakeServer [''x'']) 1 ''x'' (Some (7::nat))) 1"
  using Get_Set_append_only [of "Set (Set (MakeServer [''x'']) 1 ''x'' (Some (7::nat))) 0 ''x'' (Some 1)"
      0 "''x''" None]
    Get_Set_append_only [of "Set (MakeServer [''x'']) 1 ''x'' (Some (7::nat))" 0 "''x''" "Some 1"]
  by (simp add: ops_of_def MakeServer_def Set_def)

section \<open>Prepare without logged operations\<close>

text \<open>
  Claim C7. When the participant has no logged operation for \<open>tid\<close> (the log entry is
  missing or empty), \<open>Prepare\<close> returns with \<open>Relevant = false\<close> and the whole server
  state (states, logs, locks and stored values) is as before.
\<close>

theorem Prepare_irrelevant:
  "ops_of sv tid = [] \<Longrightarrow>
     Prepare sv \<lparr>Tid = tid\<rparr> reply = Returned sv (reply\<lparr>Relevant := False\<rparr>)"
  by (simp add: Prepare_def ops_of_def split: option.splits)

theorem Prepare_irrelevant_witness:
  "ops_of (MakeServer [''x''] :: nat Server) 0 = []
   \<and> Prepare (MakeServer [''x''] :: nat Server) \<lparr>Tid = 0\<rparr> reply0
       = Returned (MakeServer [''x'']) \<lparr>Relevant = False, Vote = False\<rparr>"
  using Prepare_irrelevant [of "MakeServer [''x''] :: nat Server" 0 reply0]
  by (simp add: ops_of_def MakeServer_def reply0_def)

section \<open>Abort of a committed transaction\<close>

text \<open>
  Claim C1 says that \<open>Abort\<close> of a transaction in state Committed leaves the state
  Committed and releases no lock. The handler only returns early for a transaction
  without a recorded state or in state Aborted; for a committed one it runs the release
  loop and records Aborted. Here transaction 0 is committed and transaction 1 holds the
  write lock of \<open>x\<close>: after \<open>Abort\<close> of transaction 0 the state of transaction 0 is
  Aborted and the lock of transaction 1 is released.
\<close>

theorem Abort_of_Committed_evaluated:
  "and_then (Prepare (Set (MakeServer [''x'']) 0 ''x'' (Some 1)) \<lparr>Tid = 0\<rparr> reply0) (\<lambda>sv.
   and_then (PreCommit sv \<lparr>Tid = 0\<rparr>) (\<lambda>sv.
   and_then (Commit sv \<lparr>Tid = 0\<rparr>) (\<lambda>sv.
   Prepare (Set sv 1 ''x'' (Some 2)) \<lparr>Tid = 1\<rparr> reply0)))
     = Returned committed_while_held \<lparr>Relevant = True, Vote = True\<rparr>
   \<and> state_of committed_while_held 0 = stateCommitted
   \<and> Abort committed_while_held \<lparr>Tid = 0\<rparr>
     = Returned (committed_while_held
          \<lparr>store := [''x'' \<mapsto> \<lparr>value_field = Some 1, lock = \<lparr>readers = 0, writer = False\<rparr>\<rparr>],
           states := [1 \<mapsto> stateVotedYes, 0 \<mapsto> stateAborted]\<rparr>) ()"
  by (simp add: handler_defs committed_while_held_def)

text \<open>When nobody holds the lock of \<open>x\<close> any more, the release loop of the same call
  unlocks a lock that is not held, which is a fatal run-time error.\<close>

lemma Abort_of_Committed_fatal:
  "and_then (Prepare (Set (MakeServer [''x'']) 0 ''x'' (Some (1::nat))) \<lparr>Tid = 0\<rparr> reply0) (\<lambda>sv.
   and_then (PreCommit sv \<lparr>Tid = 0\<rparr>) (\<lambda>sv.
   and_then (Commit sv \<lparr>Tid = 0\<rparr>) (\<lambda>sv.
   Abort sv \<lparr>Tid = 0\<rparr>))) = Fatal UnlockOfUnlockedRWMutex"
  by (simp add: handler_defs)

section \<open>Prepare waits on a held lock\<close>

text \<open>
  Claim C2 says that \<open>Prepare\<close> tries each lock with a bounded wait and votes no when a
  lock cannot be had. The handler calls the waiting \<^verbatim>\<open>RLock\<close> and \<^verbatim>\<open>Lock\<close>. Here
  transaction 0 has logged a Get and then a Set of \<open>x\<close>: \<open>Prepare\<close> takes the read lock
  and is then parked on the write lock of the same item, which its own read lock keeps
  busy. It does not return, the state stays Operations and the read lock stays held;
  \<open>Abort\<close>, \<open>PreCommit\<close> and \<open>Commit\<close> of the transaction leave the parked state as it
  is, so that none of them sets the waiting call free.
\<close>

theorem Prepare_parks_on_own_lock:
  "Prepare (Set (Get (MakeServer [''x'']) 0 ''x'') 0 ''x'' (Some 1)) \<lparr>Tid = 0\<rparr> reply0
     = Blocked parked_on_own_lock
   \<and> state_of parked_on_own_lock 0 = stateOperations
   \<and> Abort parked_on_own_lock \<lparr>Tid = 0\<rparr> = Returned parked_on_own_lock ()
   \<and> PreCommit parked_on_own_lock \<lparr>Tid = 0\<rparr> = Returned parked_on_own_lock ()
   \<and> Commit parked_on_own_lock \<lparr>Tid = 0\<rparr> = Returned parked_on_own_lock \<lparr>ReadValues = Map.empty\<rparr>"
  by (simp add: handler_defs parked_on_own_lock_def)

text \<open>The same happens on a lock that another transaction holds: transaction 0 has
  voted yes and holds the write lock of \<open>x\<close>; \<open>Prepare\<close> of transaction 1, which has
  logged a Set of \<open>x\<close>, is parked with the server unchanged and casts no vote.\<close>

lemma Prepare_parks_on_lock_of_other:
  "Prepare (Set voted_yes 1 ''x'' (Some 2)) \<lparr>Tid = 1\<rparr> reply0
     = Blocked (Set voted_yes 1 ''x'' (Some 2))"
  by (simp add: handler_defs voted_yes_def)

section \<open>Prepare on a key the participant does not own\<close>

text \<open>
  Claim C9 says that \<open>Prepare\<close>, on meeting an operation on a key that is not in the
  store, releases the locks it took for the earlier operations, records VotedNo and
  returns the vote no. The release loop of this path calls the write unlock on every
  item obtained. Here transaction 0 has logged a Get of \<open>x\<close> (owned) and a Set of \<open>q\<close>
  (not owned): the read lock of \<open>x\<close> is released with the write unlock, which is a fatal
  run-time error, and the call does not return.
\<close>

theorem Prepare_missing_key_after_Get_fatal:
  "Prepare (Set (Get (MakeServer [''x'']) 0 ''x'') 0 ''q'' (Some (1::nat))) \<lparr>Tid = 0\<rparr> reply0
     = Fatal UnlockOfUnlockedRWMutex"
  by (simp add: handler_defs)

text \<open>With a Set of \<open>x\<close> in place of the Get, the write unlock is the right one: the lock
  of \<open>x\<close> is released, VotedNo is recorded and the vote no is returned.\<close>

lemma Prepare_missing_key_after_Set:
  "Prepare (Set (Set (MakeServer [''x'']) 0 ''x'' (Some (1::nat))) 0 ''q'' (Some 1)) \<lparr>Tid = 0\<rparr> reply0
     = Returned ((Set (Set (MakeServer [''x'']) 0 ''x'' (Some 1)) 0 ''q'' (Some 1))
                   \<lparr>states := [0 \<mapsto> stateVotedNo]\<rparr>)
         \<lparr>Relevant = True, Vote = False\<rparr>"
  by (simp add: handler_defs)

section \<open>Prepare on a transaction that has voted\<close>

text \<open>
  Claim C5. In every reachable state of a participant, for a transaction whose state is
  VotedYes, PreCommitted or Committed, \<open>Prepare\<close> returns \<open>{relevant = true, vote = yes}\<close>
  and the server is exactly as before (no lock is taken, no state changes); for a
  transaction whose state is VotedNo or Aborted it returns \<open>{relevant = true, vote = no}\<close>,
  again with the server as before.
\<close>

theorem Prepare_revote:
  assumes "reachable sv"
  shows "(state_of sv tid \<in> {stateVotedYes, statePreCommitted, stateCommitted} \<longrightarrow>
            Prepare sv \<lparr>Tid = tid\<rparr> reply = Returned sv \<lparr>Relevant = True, Vote = True\<rparr>)
       \<and> (state_of sv tid \<in> {stateVotedNo, stateAborted} \<longrightarrow>
            Prepare sv \<lparr>Tid = tid\<rparr> reply = Returned sv \<lparr>Relevant = True, Vote = False\<rparr>)"
proof -
  have lc: "log_consistent sv" using assms by (rule reachable_log_consistent)
  show ?thesis
  proof (cases "state_of sv tid = stateOperations")
    case True
    then show ?thesis by simp
  next
    case False
    with lc obtain ops where "operations sv tid = Some ops" "ops \<noteq> []"
      using recorded_state_has_ops by blast
    with False show ?thesis by (auto simp: Prepare_def)
  qed
qed

theorem Prepare_revote_witness:
  "reachable voted_yes \<and> state_of voted_yes 0 \<in> {stateVotedYes, statePreCommitted, stateCommitted}
   \<and> Prepare voted_yes \<lparr>Tid = 0\<rparr> reply0 = Returned voted_yes \<lparr>Relevant = True, Vote = True\<rparr>
   \<and> reachable voted_no \<and> state_of voted_no 0 \<in> {stateVotedNo, stateAborted}
   \<and> Prepare voted_no \<lparr>Tid = 0\<rparr> reply0 = Returned voted_no \<lparr>Relevant = True, Vote = False\<rparr>"
  using Prepare_revote [OF reachable_voted_yes, of 0 reply0]
    Prepare_revote [OF reachable_voted_no, of 0 reply0]
    reachable_voted_yes reachable_voted_no
  by (simp add: state_of_def voted_yes_def voted_no_def)

section \<open>PreCommit\<close>

text \<open>
  Claim C6. In every reachable state, \<open>PreCommit\<close> always returns (it acknowledges
  unconditionally). When the participant has operations logged for \<open>tid\<close> and the state
  of \<open>tid\<close> is VotedYes, the returned server differs from the old one only in that the
  state of \<open>tid\<close> is PreCommitted; in every other case the returned server is the old
  one: no state, no log and no stored value has changed.
\<close>

theorem PreCommit_effect:
  assumes "reachable sv"
  shows "PreCommit sv \<lparr>Tid = tid\<rparr> =
           Returned (if ops_of sv tid \<noteq> [] \<and> state_of sv tid = stateVotedYes
                     then sv\<lparr>states := (states sv)(tid \<mapsto> statePreCommitted)\<rparr> else sv) ()"
proof -
  have lc: "log_consistent sv" using assms by (rule reachable_log_consistent)
  then have "operations sv tid \<noteq> None \<longleftrightarrow> ops_of sv tid \<noteq> []"
    by (auto simp: log_consistent_def ops_of_def split: option.splits)
  then show ?thesis by (simp add: PreCommit_def)
qed

text \<open>The transition from VotedYes, and no change for a transaction that voted no and
  for one the participant has never heard of.\<close>

theorem PreCommit_effect_witness:
  "reachable voted_yes
   \<and> PreCommit voted_yes \<lparr>Tid = 0\<rparr> = Returned (voted_yes\<lparr>states := [0 \<mapsto> statePreCommitted]\<rparr>) ()
   \<and> reachable voted_no
   \<and> PreCommit voted_no \<lparr>Tid = 0\<rparr> = Returned voted_no ()
   \<and> PreCommit voted_yes \<lparr>Tid = 5\<rparr> = Returned voted_yes ()"
  using PreCommit_effect [OF reachable_voted_yes, of 0] PreCommit_effect [OF reachable_voted_no, of 0]
    PreCommit_effect [OF reachable_voted_yes, of 5]
    reachable_voted_yes reachable_voted_no
  by (simp add: state_of_def ops_of_def voted_yes_def voted_no_def)

section \<open>Query\<close>

text \<open>
  Claim C4 says that the snapshot of \<open>Query\<close> has an entry for every transaction for
  which a Get or a Set has been logged. \<open>Query\<close> ranges over the map of recorded states,
  and \<open>Get\<close> and \<open>Set\<close> record no state: after one Set of transaction 0 the log of the
  transaction is not empty, its state reads Operations, and the snapshot has no entry
  for it.
\<close>

theorem Query_omits_transactions_without_vote:
  "ops_of (Set (MakeServer [''x'']) 0 ''x'' (Some (1::nat))) 0
      = [\<lparr>IsGet = False, Key = ''x'', Value = Some 1\<rparr>]
   \<and> state_of (Set (MakeServer [''x'']) 0 ''x'' (Some (1::nat))) 0 = stateOperations
   \<and> Transactions (Query (Set (MakeServer [''x'']) 0 ''x'' (Some (1::nat)))) 0 = None"
  by (simp add: handler_defs)

text \<open>
  Claim C4, amended. In every reachable state the snapshot of \<open>Query\<close> has an entry for
  exactly the transactions whose state is not Operations, that is, those on which
  \<open>Prepare\<close> has voted (VotedNo, VotedYes, PreCommitted and the terminal Aborted and
  Committed); the entry carries the current state and the full operation list. A
  transaction in state Operations has no entry.
\<close>

theorem Query_snapshot:
  assumes "reachable sv"
  shows "Transactions (Query sv) tid =
           (if state_of sv tid = stateOperations then None
            else Some \<lparr>State = state_of sv tid, Operations = ops_of sv tid\<rparr>)"
proof -
  have "log_consistent sv" using assms by (rule reachable_log_consistent)
  then show ?thesis
    by (auto simp: Query_def log_consistent_def state_of_def split: option.splits)
qed

theorem Query_snapshot_witness:
  "reachable (Set voted_yes 1 ''x'' (Some 2))
   \<and> Transactions (Query (Set voted_yes 1 ''x'' (Some 2))) 0
       = Some \<lparr>State = stateVotedYes, Operations = [\<lparr>IsGet = False, Key = ''x'', Value = Some 1\<rparr>]\<rparr>
   \<and> Transactions (Query (Set voted_yes 1 ''x'' (Some 2))) 1 = None"
  using Query_snapshot [OF reach_Set [OF reachable_voted_yes], of 1 "''x''" "Some 2" 0]
    Query_snapshot [OF reach_Set [OF reachable_voted_yes], of 1 "''x''" "Some 2" 1]
    reach_Set [OF reachable_voted_yes, of 1 "''x''" "Some 2"]
  by (simp add: state_of_def ops_of_def voted_yes_def Set_def)

section \<open>Abort of a transaction in state Operations\<close>

text \<open>
  Claim C8 says that \<open>Abort\<close> of a transaction in state Operations (operations logged,
  no vote yet) records Aborted. The handler is to abort the given transaction, and for
  a transaction with a recorded state it does record Aborted. But it returns at once
  when the transaction has no recorded state, and \<open>Get\<close> and \<open>Set\<close> record none, so a
  logged transaction is taken for an unknown one. Here transaction 0 has logged a Set of
  \<open>x\<close>: its state reads Operations, \<open>Abort\<close> acknowledges and returns the server as it
  was, with the state still Operations, and the \<open>Prepare\<close>, \<open>PreCommit\<close> and \<open>Commit\<close>
  that follow vote yes and commit the aborted transaction, writing 1 into \<open>x\<close>.
\<close>

theorem Abort_of_logged_transaction_evaluated:
  "state_of (Set (MakeServer [''x'']) 0 ''x'' (Some (1::nat))) 0 = stateOperations
   \<and> Abort (Set (MakeServer [''x'']) 0 ''x'' (Some (1::nat))) \<lparr>Tid = 0\<rparr>
       = Returned (Set (MakeServer [''x'']) 0 ''x'' (Some 1)) ()
   \<and> and_then (Abort (Set (MakeServer [''x'']) 0 ''x'' (Some 1)) \<lparr>Tid = 0\<rparr>) (\<lambda>sv.
       and_then (Prepare sv \<lparr>Tid = 0\<rparr> reply0) (\<lambda>sv.
       and_then (PreCommit sv \<lparr>Tid = 0\<rparr>) (\<lambda>sv.
       Commit sv \<lparr>Tid = 0\<rparr>)))
       = Returned
           \<lparr>store = [''x'' \<mapsto> \<lparr>value_field = Some 1, lock = \<lparr>readers = 0, writer = False\<rparr>\<rparr>],
            operations = [0 \<mapsto> [\<lparr>IsGet = False, Key = ''x'', Value = Some 1\<rparr>]],
            states = [0 \<mapsto> stateCommitted]\<rparr>
           \<lparr>ReadValues = Map.empty\<rparr>"
  by (simp add: handler_defs)

text \<open>The early return is not peculiar to this input: in every reachable state a
  transaction in state Operations has no recorded state, and \<open>Abort\<close> returns the server
  as it was.\<close>

lemma Abort_returns_early_in_Operations:
  assumes "reachable sv" and "state_of sv tid = stateOperations"
  shows "Abort sv \<lparr>Tid = tid\<rparr> = Returned sv ()"
proof -
  have "log_consistent sv" using assms(1) by (rule reachable_log_consistent)
  with assms(2) have "states sv tid = None" by (simp add: state_of_Operations_iff)
  then show ?thesis by (simp add: Abort_def)
qed

section \<open>Commit\<close>

subsection \<open>The loop of Commit undoes the locking of Prepare and executes the log\<close>

lemma commit_loop_step:
  "commit_loop (op # ops) st rv =
     (case commit_step op (st, rv) of
        Inl e \<Rightarrow> Inl e
      | Inr (st', rv') \<Rightarrow> commit_loop ops st' rv')"
  by (simp add: commit_step_def split: option.splits sum.splits)

text \<open>A yes vote of the loop of \<open>Prepare\<close> means that every lock of the log was taken.\<close>

lemma prepare_loop_acquires:
  "prepare_loop tId ops locks sv r = Returned sv' r' \<Longrightarrow> states sv' tId = Some stateVotedYes \<Longrightarrow>
     acquire_locks ops (store sv) = Some (store sv')"
proof (induction ops arbitrary: locks sv)
  case Nil
  then show ?case by auto
next
  case (Cons op ops)
  show ?case
  proof (cases "store sv (Key op)")
    case None
    with Cons.prems show ?thesis by (auto split: sum.splits)
  next
    case (Some item)
    with Cons.prems obtain m where
      m: "(if IsGet op then RLock (lock item) else Lock (lock item)) = Some m" and
      rec: "prepare_loop tId ops (locks @ [Key op])
         (sv\<lparr>store := (store sv)(Key op \<mapsto> item\<lparr>lock := m\<rparr>)\<rparr>) r = Returned sv' r'"
      by (auto split: option.splits)
    have "acquire_locks ops ((store sv)(Key op \<mapsto> item\<lparr>lock := m\<rparr>)) = Some (store sv')"
      using Cons.IH [OF rec Cons.prems(2)] by (simp add: fun_upd_def)
    with Some m show ?thesis
      by (simp add: acquire_op_def)
  qed
qed

text \<open>Releasing a lock right after taking it gives the store back, with the operation
  executed.\<close>

lemma acquire_then_release:
  assumes "acquire_op op st0 = Some st1"
  shows "commit_step op (st1, rv) = Inr (spec_execute_op op (st0, rv))"
  using assms
  by (auto simp: acquire_op_def commit_step_def RLock_def Lock_def RUnlock_def Unlock_def
      map_upd_triv split: option.splits if_splits)

text \<open>Two acquisitions that succeed one after the other succeed in the other order too,
  with the same result.\<close>

lemma acquire_op_swap:
  assumes "acquire_op op st0 = Some st1" and "acquire_op op' st1 = Some st2"
  shows "\<exists>st1'. acquire_op op' st0 = Some st1' \<and> acquire_op op st1' = Some st2"
  using assms
  by (auto simp: acquire_op_def RLock_def Lock_def fun_upd_twist
      split: option.splits if_splits)

lemma lock_value_update_swap:
  "(item :: 'v StoreItem)\<lparr>lock := m, value_field := v\<rparr> = item\<lparr>value_field := v, lock := m\<rparr>"
  by (cases item) simp

text \<open>Taking a lock does not change what an operation reads or writes.\<close>

lemma execute_after_acquire:
  assumes "acquire_op op' st0 = Some st1"
  shows "snd (spec_execute_op op (st1, rv)) = snd (spec_execute_op op (st0, rv))"
    and "acquire_op op' (fst (spec_execute_op op (st0, rv)))
           = Some (fst (spec_execute_op op (st1, rv)))"
  using assms
  by (auto simp: acquire_op_def fun_upd_twist lock_value_update_swap
      split: option.splits if_splits)

text \<open>The first round of the loop of \<open>Commit\<close> releases the lock that was taken first,
  under the locks that were taken after it.\<close>

lemma release_past_acquires:
  assumes "acquire_op op st0 = Some st1" and "acquire_locks ops st1 = Some st"
  shows "\<exists>st'. commit_step op (st, rv) = Inr (st', snd (spec_execute_op op (st0, rv)))
           \<and> acquire_locks ops (fst (spec_execute_op op (st0, rv))) = Some st'"
  using assms
proof (induction ops arbitrary: st0 st1)
  case Nil
  then have "commit_step op (st, rv) = Inr (spec_execute_op op (st0, rv))"
    by (simp add: acquire_then_release)
  then show ?case by (cases "spec_execute_op op (st0, rv)") simp
next
  case (Cons op' ops)
  from Cons.prems(2) obtain st2 where
    st2: "acquire_op op' st1 = Some st2" and rest: "acquire_locks ops st2 = Some st"
    by (auto split: option.splits)
  from acquire_op_swap [OF Cons.prems(1) st2] obtain st1' where
    a: "acquire_op op' st0 = Some st1'" and b: "acquire_op op st1' = Some st2"
    by blast
  from Cons.IH [OF b rest] obtain st' where
    c: "commit_step op (st, rv) = Inr (st', snd (spec_execute_op op (st1', rv)))" and
    d: "acquire_locks ops (fst (spec_execute_op op (st1', rv))) = Some st'"
    by blast
  from c have "commit_step op (st, rv) = Inr (st', snd (spec_execute_op op (st0, rv)))"
    by (simp del: spec_execute_op.simps add: execute_after_acquire(1) [OF a])
  moreover from d have
    "acquire_locks (op' # ops) (fst (spec_execute_op op (st0, rv))) = Some st'"
    by (simp del: spec_execute_op.simps add: execute_after_acquire(2) [OF a])
  ultimately show ?case by blast
qed

lemma commit_loop_of_acquired:
  "acquire_locks ops st0 = Some st \<Longrightarrow>
     commit_loop ops st rv = Inr (fold spec_execute_op ops (st0, rv))"
proof (induction ops arbitrary: st0 st rv)
  case Nil
  then show ?case by simp
next
  case (Cons op ops)
  from Cons.prems obtain st1 where
    st1: "acquire_op op st0 = Some st1" and rest: "acquire_locks ops st1 = Some st"
    by (auto split: option.splits)
  obtain e rv' where e: "spec_execute_op op (st0, rv) = (e, rv')"
    by (cases "spec_execute_op op (st0, rv)")
  from release_past_acquires [OF st1 rest, of rv] e obtain st' where
    step: "commit_step op (st, rv) = Inr (st', rv')" and acq: "acquire_locks ops e = Some st'"
    by auto
  from Cons.IH [OF acq, of rv'] step e show ?case
    by (simp only: commit_loop_step fold_Cons comp_apply sum.case prod.case)
qed

subsection \<open>The claim\<close>

text \<open>
  Claim C3 says that \<open>Commit\<close> of a transaction in state PreCommitted executes the log,
  releases the locks and records Committed. The loop releases one lock for each
  operation of the log as it is at the time of \<open>Commit\<close>. Here transaction 0 logged a Set
  of \<open>y\<close> after its \<open>Prepare\<close> had voted yes, so that the lock of \<open>y\<close> was never taken:
  the state is PreCommitted, and \<open>Commit\<close> unlocks a lock that is not held, a fatal
  run-time error; it does not return and no state Committed is recorded.
\<close>

theorem Commit_after_late_Set_fatal:
  "and_then (Prepare (Set (MakeServer [''x'', ''y'']) 0 ''x'' (Some 1)) \<lparr>Tid = 0\<rparr> reply0) (\<lambda>sv.
   PreCommit (Set sv 0 ''y'' (Some 2)) \<lparr>Tid = 0\<rparr>) = Returned late_set_precommitted ()
   \<and> state_of late_set_precommitted 0 = statePreCommitted
   \<and> Commit late_set_precommitted \<lparr>Tid = 0\<rparr> = Fatal UnlockOfUnlockedRWMutex"
  by (simp add: handler_defs late_set_precommitted_def)

text \<open>
  Claim C3, amended. Let the locks of the log of \<open>tid\<close> be held as \<open>Prepare\<close> took them:
  the store is the one that a call of \<open>Prepare\<close> with a yes vote left (from a server
  \<open>sv0\<close> on which \<open>tid\<close> was in state Operations), and the log of \<open>tid\<close> is the one of
  that call. Then, if the state of \<open>tid\<close> is PreCommitted, \<open>Commit\<close> returns; the stored
  values and the reply's read values are those of executing the log in order on the
  values of \<open>sv0\<close> (a Set writes its value into the item of its key, a Get reads the value
  the item has at that point); every lock is as it was in \<open>sv0\<close>, so exactly the locks
  taken by \<open>Prepare\<close> are released; and the state of \<open>tid\<close> is Committed. In every other
  state, Committed included, \<open>Commit\<close> returns the server as it was (no value, no state,
  no lock has changed) and an empty map of read values.
\<close>

theorem Commit_effect:
  "(state_of sv0 tid = stateOperations
      \<and> Prepare sv0 \<lparr>Tid = tid\<rparr> reply = Returned sv1 reply1
      \<and> state_of sv1 tid = stateVotedYes
      \<and> store sv = store sv1 \<and> operations sv tid = operations sv0 tid
      \<and> state_of sv tid = statePreCommitted
    \<longrightarrow> Commit sv \<lparr>Tid = tid\<rparr> =
          Returned (sv\<lparr>store := fst (spec_execute (ops_of sv tid) (store sv0)),
                       states := (states sv)(tid \<mapsto> stateCommitted)\<rparr>)
                   \<lparr>ReadValues = snd (spec_execute (ops_of sv tid) (store sv0))\<rparr>)
   \<and> (state_of sv tid \<noteq> statePreCommitted
    \<longrightarrow> Commit sv \<lparr>Tid = tid\<rparr> = Returned sv \<lparr>ReadValues = Map.empty\<rparr>)"
proof (intro conjI impI)
  assume "state_of sv tid \<noteq> statePreCommitted"
  then show "Commit sv \<lparr>Tid = tid\<rparr> = Returned sv \<lparr>ReadValues = Map.empty\<rparr>"
    by (simp add: Commit_def split: option.splits)
next
  assume h: "state_of sv0 tid = stateOperations
      \<and> Prepare sv0 \<lparr>Tid = tid\<rparr> reply = Returned sv1 reply1
      \<and> state_of sv1 tid = stateVotedYes
      \<and> store sv = store sv1 \<and> operations sv tid = operations sv0 tid
      \<and> state_of sv tid = statePreCommitted"
  then have yes: "states sv1 tid = Some stateVotedYes"
    by (auto simp: state_of_def split: option.splits)
  from h obtain ops where ops: "operations sv0 tid = Some ops" and
    loop: "prepare_loop tid ops [] sv0 (reply\<lparr>Relevant := True, Vote := True\<rparr>)
             = Returned sv1 reply1"
    by (auto simp: Prepare_def Let_def split: option.splits if_splits)
  from prepare_loop_acquires [OF loop yes] h have
    "acquire_locks ops (store sv0) = Some (store sv)" by simp
  from commit_loop_of_acquired [OF this, of Map.empty] have
    "commit_loop ops (store sv) Map.empty = Inr (spec_execute ops (store sv0))"
    by (simp add: spec_execute_def)
  with h ops show "Commit sv \<lparr>Tid = tid\<rparr> =
          Returned (sv\<lparr>store := fst (spec_execute (ops_of sv tid) (store sv0)),
                       states := (states sv)(tid \<mapsto> stateCommitted)\<rparr>)
                   \<lparr>ReadValues = snd (spec_execute (ops_of sv tid) (store sv0))\<rparr>"
    by (simp add: Commit_def ops_of_def split: prod.splits)
qed

text \<open>Transaction 0 reads \<open>x\<close> and sets \<open>y\<close> to 5. \<open>Prepare\<close> takes the read lock of \<open>x\<close>
  and the write lock of \<open>y\<close>; once pre-committed, \<open>Commit\<close> writes 5 into \<open>y\<close>, replies
  with the value 1 of \<open>x\<close> and leaves both locks free; while the state is still VotedYes,
  \<open>Commit\<close> changes nothing and replies with the empty map.\<close>

theorem Commit_effect_witness:
  "Prepare read_write_logged \<lparr>Tid = 0\<rparr> reply0
     = Returned (read_write_logged\<lparr>store := read_write_locked, states := [0 \<mapsto> stateVotedYes]\<rparr>)
         \<lparr>Relevant = True, Vote = True\<rparr>
   \<and> Commit (read_write_logged\<lparr>store := read_write_locked, states := [0 \<mapsto> statePreCommitted]\<rparr>)
        \<lparr>Tid = 0\<rparr>
     = Returned (read_write_logged
          \<lparr>store := [''x'' \<mapsto> \<lparr>value_field = Some 1, lock = \<lparr>readers = 0, writer = False\<rparr>\<rparr>,
                     ''y'' \<mapsto> \<lparr>value_field = Some 5, lock = \<lparr>readers = 0, writer = False\<rparr>\<rparr>],
           states := [0 \<mapsto> stateCommitted]\<rparr>)
         \<lparr>ReadValues = [''x'' \<mapsto> Some 1]\<rparr>
   \<and> Commit (read_write_logged\<lparr>store := read_write_locked, states := [0 \<mapsto> stateVotedYes]\<rparr>)
        \<lparr>Tid = 0\<rparr>
     = Returned (read_write_logged\<lparr>store := read_write_locked, states := [0 \<mapsto> stateVotedYes]\<rparr>)
         \<lparr>ReadValues = Map.empty\<rparr>"
proof -
  let ?voted = "read_write_logged\<lparr>store := read_write_locked, states := [0 \<mapsto> stateVotedYes]\<rparr>"
  let ?pre = "read_write_logged\<lparr>store := read_write_locked, states := [0 \<mapsto> statePreCommitted]\<rparr>"
  have p: "Prepare read_write_logged \<lparr>Tid = 0\<rparr> reply0
             = Returned ?voted \<lparr>Relevant = True, Vote = True\<rparr>"
    by (simp add: handler_defs read_write_logged_def read_write_locked_def)
  have s: "state_of read_write_logged 0 = stateOperations" "state_of ?voted 0 = stateVotedYes"
    "state_of ?pre 0 = statePreCommitted" "store ?pre = store ?voted"
    "operations ?pre 0 = operations read_write_logged 0"
    by (simp_all add: state_of_def read_write_logged_def)
  have e: "spec_execute (ops_of ?pre 0) (store read_write_logged)
      = ([''x'' \<mapsto> \<lparr>value_field = Some 1, lock = \<lparr>readers = 0, writer = False\<rparr>\<rparr>,
          ''y'' \<mapsto> \<lparr>value_field = Some 5, lock = \<lparr>readers = 0, writer = False\<rparr>\<rparr>],
         [''x'' \<mapsto> Some 1])"
    by (simp add: spec_execute_def ops_of_def read_write_logged_def)
  from Commit_effect [of read_write_logged 0 reply0 ?voted "\<lparr>Relevant = True, Vote = True\<rparr>" ?pre]
    Commit_effect [of read_write_logged 0 reply0 ?voted "\<lparr>Relevant = True, Vote = True\<rparr>" ?voted]
    p s e
  show ?thesis by simp
qed

end
